theory Spec2Isabelle
  imports Main "HOL-Library.Multiset"
begin

section \<open>Cards, constants and undefined behaviour\<close>

text \<open>
  The program is one C file. Its integers are C \<open>int\<close>s; every value that occurs in a
  game is bounded by a few hundred (at most 52 cards of at most 11 points), so they are
  modelled as \<open>int\<close>. A C array is a list whose length is the array's capacity; an
  access outside it is undefined behaviour in C and is the value \<open>Inl (OutOfBounds, s)\<close>
  of the model, \<open>s\<close> being the variables at the moment of the access. A word that
  \<open>scanf\<close> writes beyond the end of its buffer is the fault \<open>BufferOverflow\<close>.
\<close>

definition DECK_SIZE :: int where
  "DECK_SIZE = 52"

definition NUM_CARDS :: nat where
  "NUM_CARDS = 13"

definition OPTION_INPUT_LENGTH :: nat where
  "OPTION_INPUT_LENGTH = 20"

text \<open>
  The struct \<open>Card\<close>; its fields \<open>image_\<close> and \<open>points_\<close> are \<open>card_image\<close> and
  \<open>card_points\<close> here (a name cannot end in an underscore). The image is the text of
  the file.
\<close>

record Card =
  card_image :: string
  card_points :: int

datatype fault = OutOfBounds | BufferOverflow

section \<open>FisherYates\<close>

text \<open>
  \<open>srand\<close> and \<open>rand\<close> belong to the C library. The generator is a state of some type
  \<open>'g\<close>: \<open>srand seed\<close> is the state the library installs for a seed, \<open>rand\<close> returns a
  non-negative number and the next state. \<open>FisherYates\<close> receives the generator state
  the process had before the call (\<open>gen\<close>) and overwrites it by \<open>srand\<close>.
\<close>

definition swap_cards :: "Card list \<Rightarrow> nat \<Rightarrow> nat \<Rightarrow> Card list" where
  "swap_cards deck i swap_index =
     (let tmp = deck ! i;
          deck1 = deck[i := deck ! swap_index]
      in deck1[swap_index := tmp])"

text \<open>Line 47: \<open>rand() % (i + 1)\<close>.\<close>

definition rand_mod :: "('g \<Rightarrow> nat \<times> 'g) \<Rightarrow> 'g \<Rightarrow> nat \<Rightarrow> nat \<times> 'g" where
  "rand_mod rand gen i = (let (r, gen') = rand gen in (r mod (i + 1), gen'))"

text \<open>
  The loop, with \<open>i\<close> counting down to 1; the first argument of \<open>fy_loop\<close> is the
  current \<open>i\<close>.
\<close>

fun fy_loop :: "('g \<Rightarrow> nat \<times> 'g) \<Rightarrow> nat \<Rightarrow> Card list \<times> 'g
    \<Rightarrow> (fault \<times> Card list \<times> 'g) + Card list \<times> 'g" where
  "fy_loop rand 0 s = Inr s"
| "fy_loop rand (Suc k) (deck, gen) =
     (let i = Suc k;
          (swap_index, gen') = rand_mod rand gen i
      in if i < length deck
         then fy_loop rand k (swap_cards deck i swap_index, gen')
         else Inl (OutOfBounds, deck, gen'))"

definition FisherYates :: "(int \<Rightarrow> 'g) \<Rightarrow> ('g \<Rightarrow> nat \<times> 'g) \<Rightarrow> Card list \<times> 'g \<Rightarrow> int \<Rightarrow> int
    \<Rightarrow> (fault \<times> Card list \<times> 'g) + Card list \<times> 'g" where
  "FisherYates srand rand s deck_size random_seed =
     (case s of (deck, gen) \<Rightarrow> fy_loop rand (nat (deck_size - 1)) (deck, srand random_seed))"

section \<open>giveCards\<close>

text \<open>
  The four things \<open>giveCards\<close> changes through its pointer parameters, in this order:
  the \<open>receiver\<close> array, \<open>*card_count\<close>, \<open>*receiver_count\<close> and \<open>*score\<close>.
\<close>

type_synonym xfer = "Card list \<times> int \<times> int \<times> int"

text \<open>Lines 112 to 120: the new value of \<open>*score\<close> for the card \<open>c\<close>.\<close>

definition add_score :: "int \<Rightarrow> Card \<Rightarrow> int" where
  "add_score score c =
     (if card_points c = 11
      then (let points_ace = (if score > 10 then 1 else 11) in score + points_ace)
      else score + card_points c)"

definition give_one :: "Card list \<Rightarrow> xfer \<Rightarrow> (fault \<times> xfer) + xfer" where
  "give_one cards s =
     (case s of (receiver, card_count, receiver_count, score) \<Rightarrow>
        if card_count < 0 \<or> int (length cards) \<le> card_count
           \<or> receiver_count < 0 \<or> int (length receiver) \<le> receiver_count
        then Inl (OutOfBounds, s)
        else
          let receiver' = receiver[nat receiver_count := cards ! nat card_count];
              score' = add_score score (cards ! nat card_count)
          in Inr (receiver', card_count + 1, receiver_count + 1, score'))"

fun give_loop :: "nat \<Rightarrow> Card list \<Rightarrow> xfer \<Rightarrow> (fault \<times> xfer) + xfer" where
  "give_loop 0 cards s = Inr s"
| "give_loop (Suc n) cards s =
     (case give_one cards s of
        Inl e \<Rightarrow> Inl e
      | Inr s' \<Rightarrow> give_loop n cards s')"

definition giveCards :: "Card list \<Rightarrow> Card list \<Rightarrow> int \<Rightarrow> int \<Rightarrow> int \<Rightarrow> int
    \<Rightarrow> (fault \<times> xfer) + xfer" where
  "giveCards cards receiver card_count receiver_count score amount =
     give_loop (nat amount) cards (receiver, card_count, receiver_count, score)"

section \<open>main: the deck\<close>

definition points :: "int list" where
  "points = [11, 10, 10, 10, 10, 9, 8, 7, 6, 5, 4, 3, 2]"

definition mk_card :: "string \<Rightarrow> int \<Rightarrow> Card" where
  "mk_card img p = \<lparr>card_image = img, card_points = p\<rparr>"

text \<open>
  \<open>card_images\<close> holds the thirteen images main has read from the files; reading them
  is outside the model. For each image, in the order of the table, four cards enter
  the deck.
\<close>

definition build_deck :: "string list \<Rightarrow> Card list" where
  "build_deck card_images =
     concat (map (\<lambda>i. replicate 4 (mk_card (card_images ! i) (points ! i)))
                 [0..<NUM_CARDS])"

section \<open>main: the game\<close>

record game =
  cards :: "Card list"
  card_count :: int
  dealer :: "Card list"
  player :: "Card list"
  dealer_count :: int
  player_count :: int
  dealer_score :: int
  player_score :: int
  players_turn :: int

text \<open>
  What one stretch of main does: \<open>Next g\<close> goes on to the next iteration of
  \<open>while(1)\<close> with the variables \<open>g\<close>; \<open>Stop msgs g\<close> leaves the game (\<open>break\<close> or
  \<open>return 0\<close>) after printing the verdict \<open>msgs\<close>; \<open>Crash\<close> is undefined behaviour.
  Only the verdicts are kept of what the program prints.
\<close>

datatype flow = Next game | Stop "string list" game | Crash fault

definition deal_player :: "game \<Rightarrow> int \<Rightarrow> (fault \<times> game) + game" where
  "deal_player g amount =
     (let put = (\<lambda>(r, cc, rc, sc).
            g\<lparr>card_count := cc, player := r, player_count := rc, player_score := sc\<rparr>)
      in case giveCards (cards g) (player g) (card_count g) (player_count g)
                (player_score g) amount of
           Inl (e, s) \<Rightarrow> Inl (e, put s)
         | Inr s \<Rightarrow> Inr (put s))"

definition deal_dealer :: "game \<Rightarrow> int \<Rightarrow> (fault \<times> game) + game" where
  "deal_dealer g amount =
     (let put = (\<lambda>(r, cc, rc, sc).
            g\<lparr>card_count := cc, dealer := r, dealer_count := rc, dealer_score := sc\<rparr>)
      in case giveCards (cards g) (dealer g) (card_count g) (dealer_count g)
                (dealer_score g) amount of
           Inl (e, s) \<Rightarrow> Inl (e, put s)
         | Inr s \<Rightarrow> Inr (put s))"

text \<open>
  Lines 319 to 349: the two opening deals and the test for a blackjack of the player.
  \<open>player0\<close> and \<open>dealer0\<close> are the contents of the two uninitialised arrays.
  \<open>players_turn\<close> is declared only after the test; the record carries its initial
  value 1 from the beginning.
\<close>

definition start :: "Card list \<Rightarrow> Card list \<Rightarrow> Card list \<Rightarrow> flow" where
  "start cards0 player0 dealer0 =
     (let g0 = \<lparr>cards = cards0, card_count = 0, dealer = dealer0, player = player0,
                dealer_count = 0, player_count = 0, dealer_score = 0, player_score = 0,
                players_turn = 1\<rparr>
      in case deal_player g0 2 of
           Inl (e, _) \<Rightarrow> Crash e
         | Inr g1 \<Rightarrow>
            (case deal_dealer g1 2 of
               Inl (e, _) \<Rightarrow> Crash e
             | Inr g2 \<Rightarrow>
                if player_score g2 = 21
                then (if dealer_score g2 \<noteq> 21
                      then Stop [''BLACKJACK! '', ''YOU WIN!''] g2
                      else Stop [''BLACKJACK! '', ''BLACKJACK! PUSH!''] g2)
                else Next g2))"

text \<open>Lines 362 to 368: the dealer draws while his score is below the player's.\<close>

function dealer_draws :: "game \<Rightarrow> (fault \<times> game) + game" where
  "dealer_draws g =
     (if dealer_score g < player_score g
      then (case deal_dealer g 1 of
              Inl e \<Rightarrow> Inl e
            | Inr g' \<Rightarrow> dealer_draws g')
      else Inr g)"
  by pat_completeness auto

text \<open>Lines 353 to 387: the dealer's branch of the loop body.\<close>

definition dealers_turn :: "game \<Rightarrow> flow" where
  "dealers_turn g =
     (if dealer_score g = 21 \<and> dealer_count g = 2
      then Stop [''BLACKJACK! YOU LOOSE!''] g
      else case dealer_draws g of
             Inl (e, _) \<Rightarrow> Crash e
           | Inr g' \<Rightarrow>
              if dealer_score g' = 21
              then (if player_score g' = 21
                    then Stop [''PUSH!''] g'
                    else Stop [''YOU LOOSE!''] g')
              else if dealer_score g' > 21
              then Stop [''BUST! YOU WIN!''] g'
              else Next (g'\<lparr>players_turn := 1\<rparr>))"

text \<open>
  Lines 388 to 412: the player's branch. \<open>option\<close> is the next word of the input.
  \<open>scanf("%s", option)\<close> copies it, whatever its length, and a closing zero byte
  into the array \<open>char option[OPTION_INPUT_LENGTH]\<close>: a word of
  \<open>OPTION_INPUT_LENGTH\<close> or more characters is written beyond the end of the array.
  The end of the input is outside the model.
\<close>

definition players_move :: "game \<Rightarrow> string \<Rightarrow> flow" where
  "players_move g option =
     (if OPTION_INPUT_LENGTH \<le> length option
      then Crash BufferOverflow
      else if option = ''h''
      then (case deal_player g 1 of
              Inl (e, _) \<Rightarrow> Crash e
            | Inr g' \<Rightarrow>
               if player_score g' = 21
               then Next (g'\<lparr>players_turn := 0\<rparr>)
               else if player_score g' > 21
               then Stop [''BUST! YOU LOOSE!''] g'
               else Next g')
      else if option = ''s''
      then Next (g\<lparr>players_turn := 0\<rparr>)
      else Next g)"

text \<open>
  One iteration of \<open>while(1)\<close>. The word is read in the player's branch only; in
  the dealer's branch nothing is read and the argument is not looked at.
\<close>

definition step :: "game \<Rightarrow> string \<Rightarrow> flow" where
  "step g option = (if players_turn g = 0 then dealers_turn g else players_move g option)"

text \<open>
  The loop over a list of words, one for each iteration; \<open>Next g\<close> when the list is
  used up and the game is still going on.
\<close>

fun run :: "game \<Rightarrow> string list \<Rightarrow> flow" where
  "run g [] = Next g"
| "run g (option # rest) =
     (case step g option of
        Next g' \<Rightarrow> run g' rest
      | Stop msgs g' \<Rightarrow> Stop msgs g'
      | Crash e \<Rightarrow> Crash e)"

text \<open>
  Main from the shuffle on: the deck is built, shuffled with the seed, and the game
  starts.
\<close>

definition main_game :: "(int \<Rightarrow> 'g) \<Rightarrow> ('g \<Rightarrow> nat \<times> 'g) \<Rightarrow> string list \<Rightarrow> int \<Rightarrow> 'g
    \<Rightarrow> Card list \<Rightarrow> Card list \<Rightarrow> flow" where
  "main_game srand rand card_images seed gen player0 dealer0 =
     (case FisherYates srand rand (build_deck card_images, gen) DECK_SIZE seed of
        Inl (e, _) \<Rightarrow> Crash e
      | Inr (cards0, _) \<Rightarrow> start cards0 player0 dealer0)"

section \<open>The shuffle as the specification words it\<close>

text \<open>
  The specification's shuffle, written without the definitions of the code: the
  generator starts in the state of the seed; for \<open>i\<close> from the last index down to 1,
  in this order, the next number \<open>r\<close> of the generator gives the index
  \<open>j = r mod (i + 1)\<close> of the range from 0 to \<open>i\<close>, and the elements \<open>i\<close> and
  \<open>j\<close> are swapped.
\<close>

definition fy_indices :: "nat \<Rightarrow> nat list" where
  "fy_indices n = rev [1..<n]"

definition shuffle_spec :: "(int \<Rightarrow> 'g) \<Rightarrow> ('g \<Rightarrow> nat \<times> 'g) \<Rightarrow> Card list \<Rightarrow> int
    \<Rightarrow> Card list \<times> 'g" where
  "shuffle_spec srand rand deck seed =
     fold (\<lambda>i (d, gen).
             let (r, gen') = rand gen;
                 j = r mod (i + 1)
             in (d[i := d ! j, j := d ! i], gen'))
          (fy_indices (length deck)) (deck, srand seed)"

section \<open>Invariant of the running game\<close>

text \<open>
  What holds of the variables of main at the head of every iteration of \<open>while(1)\<close>:
  the three arrays have 52 places, every card of the deck has points between 2 and 11,
  the cursor counts the cards of both hands, no hand has more cards than points, and
  the player has at most 20 points when it is his turn.
\<close>

definition deck_ok :: "Card list \<Rightarrow> bool" where
  "deck_ok cs \<longleftrightarrow> length cs = 52 \<and> list_all (\<lambda>c. 2 \<le> card_points c \<and> card_points c \<le> 11) cs"

definition game_inv :: "game \<Rightarrow> bool" where
  "game_inv g \<longleftrightarrow>
     deck_ok (cards g) \<and> length (player g) = 52 \<and> length (dealer g) = 52
     \<and> card_count g = player_count g + dealer_count g
     \<and> 0 \<le> player_count g \<and> player_count g \<le> player_score g
     \<and> 0 \<le> dealer_count g \<and> dealer_count g \<le> dealer_score g
     \<and> player_score g \<le> 21 \<and> dealer_count g \<le> 21
     \<and> (players_turn g \<noteq> 0 \<longrightarrow> player_score g \<le> 20)"

section \<open>Concrete games\<close>

text \<open>
  A generator that replays a fixed list of numbers, thirteen one-letter images, and two
  arrays of 52 blank cards for the uninitialised hands.
\<close>

fun replay_rand :: "nat list \<Rightarrow> nat \<times> nat list" where
  "replay_rand [] = (0, [])"
| "replay_rand (r # rs) = (r, rs)"

definition ex_images :: "string list" where
  "ex_images = [''A'', ''K'', ''Q'', ''J'', ''T'', ''9'', ''8'', ''7'', ''6'', ''5'', ''4'', ''3'', ''2'']"

definition ex_blank :: "Card list" where
  "ex_blank = replicate 52 (mk_card [] 0)"

text \<open>
  The numbers leave every position where it is, except that the positions 47, 31,
  30, 23 and 5 are swapped with 3, 1, 4, 2 and 0: the shuffled deck begins with
  king, 7, 9, 3, 7.
\<close>

definition ex_numbers :: "nat list" where
  "ex_numbers = map (\<lambda>i. if i = 47 then 3 else if i = 31 then 1 else if i = 30 then 4
                          else if i = 23 then 2 else if i = 5 then 0 else i) (fy_indices 52)"

definition ex_main :: flow where
  "ex_main = main_game (\<lambda>seed. ex_numbers) replay_rand ex_images 0 [] ex_blank ex_blank"

text \<open>The deck that the shuffle of \<open>ex_main\<close> produces.\<close>

definition ex_deck :: "Card list" where
  "ex_deck =
    [mk_card ''K'' 10, mk_card ''7'' 7, mk_card ''9'' 9, mk_card ''3'' 3,
     mk_card ''7'' 7, mk_card ''A'' 11, mk_card ''K'' 10, mk_card ''K'' 10,
     mk_card ''Q'' 10, mk_card ''Q'' 10, mk_card ''Q'' 10, mk_card ''Q'' 10,
     mk_card ''J'' 10, mk_card ''J'' 10, mk_card ''J'' 10, mk_card ''J'' 10,
     mk_card ''T'' 10, mk_card ''T'' 10, mk_card ''T'' 10, mk_card ''T'' 10,
     mk_card ''9'' 9, mk_card ''9'' 9, mk_card ''9'' 9, mk_card ''A'' 11,
     mk_card ''8'' 8, mk_card ''8'' 8, mk_card ''8'' 8, mk_card ''8'' 8,
     mk_card ''7'' 7, mk_card ''7'' 7, mk_card ''K'' 10, mk_card ''A'' 11,
     mk_card ''6'' 6, mk_card ''6'' 6, mk_card ''6'' 6, mk_card ''6'' 6,
     mk_card ''5'' 5, mk_card ''5'' 5, mk_card ''5'' 5, mk_card ''5'' 5,
     mk_card ''4'' 4, mk_card ''4'' 4, mk_card ''4'' 4, mk_card ''4'' 4,
     mk_card ''3'' 3, mk_card ''3'' 3, mk_card ''3'' 3, mk_card ''A'' 11,
     mk_card ''2'' 2, mk_card ''2'' 2, mk_card ''2'' 2, mk_card ''2'' 2]"

text \<open>
  The game of \<open>ex_main\<close> after the opening deals (king and 7 for the player, 9 and
  3 for the dealer), after the player has stood, and after the dealer has drawn the
  7 that follows in the deck and the loop body has ended.
\<close>

definition ex_dealt :: game where
  "ex_dealt =
     \<lparr>cards = ex_deck, card_count = 4,
      dealer = ex_blank[0 := mk_card ''9'' 9, 1 := mk_card ''3'' 3],
      player = ex_blank[0 := mk_card ''K'' 10, 1 := mk_card ''7'' 7],
      dealer_count = 2, player_count = 2, dealer_score = 12, player_score = 17,
      players_turn = 1\<rparr>"

definition ex_stood :: game where
  "ex_stood = ex_dealt\<lparr>players_turn := 0\<rparr>"

definition ex_back :: game where
  "ex_back =
     ex_dealt\<lparr>card_count := 5,
              dealer := ex_blank[0 := mk_card ''9'' 9, 1 := mk_card ''3'' 3, 2 := mk_card ''7'' 7],
              dealer_count := 3, dealer_score := 19\<rparr>"

text \<open>
  A dealer's turn with a two-card 21 for the dealer and a 21 of three cards for
  the player.
\<close>

definition ex_naturals :: game where
  "ex_naturals =
     \<lparr>cards = [mk_card ''T'' 10, mk_card ''5'' 5, mk_card ''A'' 11, mk_card ''K'' 10,
               mk_card ''6'' 6, mk_card ''2'' 2],
      card_count = 5,
      dealer = [mk_card ''A'' 11, mk_card ''K'' 10, mk_card [] 0],
      player = [mk_card ''T'' 10, mk_card ''5'' 5, mk_card ''6'' 6],
      dealer_count = 2, player_count = 3, dealer_score = 21, player_score = 21,
      players_turn = 0\<rparr>"

section \<open>Termination of the dealer's loop in the model\<close>

lemma give_one_Inr:
  "give_one cs (r, cc, rc, sc) = Inr (r', cc', rc', sc') \<Longrightarrow>
     0 \<le> cc \<and> cc < int (length cs) \<and> cc' = cc + 1 \<and> 0 \<le> rc \<and> rc < int (length r)
     \<and> rc' = rc + 1 \<and> r' = r[nat rc := cs ! nat cc] \<and> length r' = length r"
  by (auto simp: give_one_def Let_def split: if_splits)

lemma giveCards_one:
  "giveCards cs r cc rc sc 1 = give_one cs (r, cc, rc, sc)"
  by (simp add: giveCards_def split: sum.splits)

lemma deal_dealer_one_Inr:
  assumes "deal_dealer g 1 = Inr g'"
  shows "cards g' = cards g \<and> card_count g' = card_count g + 1
     \<and> 0 \<le> card_count g \<and> card_count g < int (length (cards g))"
proof -
  obtain r cc rc sc where s: "give_one (cards g) (dealer g, card_count g, dealer_count g, dealer_score g)
      = Inr (r, cc, rc, sc)"
    and g': "g' = g\<lparr>card_count := cc, dealer := r, dealer_count := rc, dealer_score := sc\<rparr>"
    using assms by (auto simp: deal_dealer_def giveCards_one Let_def split: sum.splits prod.splits)
  from give_one_Inr [OF s] g' show ?thesis by simp
qed

termination dealer_draws
proof (relation "measure (\<lambda>g. nat (int (length (cards g)) - card_count g))")
  show "wf (measure (\<lambda>g. nat (int (length (cards g)) - card_count g)))" by simp
next
  fix g g'
  assume "deal_dealer g 1 = Inr g'"
  from deal_dealer_one_Inr [OF this]
  show "(g', g) \<in> measure (\<lambda>g. nat (int (length (cards g)) - card_count g))"
    by simp
qed

declare dealer_draws.simps [simp del]


section \<open>The shuffle\<close>

lemma length_build_deck: "length (build_deck card_images) = 52"
  by (simp add: build_deck_def NUM_CARDS_def length_concat comp_def sum_list_triv)

lemma mset_swap_cards:
  "i < length deck \<Longrightarrow> j < length deck \<Longrightarrow> mset (swap_cards deck i j) = mset deck"
  by (simp add: swap_cards_def Let_def mset_swap)

lemma length_swap_cards: "length (swap_cards deck i j) = length deck"
  by (simp add: swap_cards_def Let_def)

lemma swap_cards_spec: "swap_cards deck i j = deck[i := deck ! j, j := deck ! i]"
  by (simp add: swap_cards_def Let_def)

lemma rand_mod_le: "fst (rand_mod rand gen i) \<le> i"
proof -
  obtain r gen1 where r: "rand gen = (r, gen1)" by (cases "rand gen")
  have "r mod (i + 1) < i + 1" by simp
  then show ?thesis by (simp add: rand_mod_def r)
qed

lemma fy_loop_Suc:
  "rand_mod rand gen (Suc k) = (j, gen1) \<Longrightarrow> Suc k < length deck \<Longrightarrow>
   fy_loop rand (Suc k) (deck, gen) = fy_loop rand k (swap_cards deck (Suc k) j, gen1)"
  by simp

lemma fy_loop_perm:
  "k < length deck \<or> k = 0 \<Longrightarrow>
     \<exists>deck' gen'. fy_loop rand k (deck, gen) = Inr (deck', gen')
        \<and> mset deck' = mset deck \<and> length deck' = length deck"
proof (induction k arbitrary: deck gen)
  case 0
  then show ?case by simp
next
  case (Suc k)
  obtain j gen1 where r: "rand_mod rand gen (Suc k) = (j, gen1)"
    by (cases "rand_mod rand gen (Suc k)")
  let ?d = "swap_cards deck (Suc k) j"
  from Suc.prems have lt: "Suc k < length deck" by simp
  have "j \<le> Suc k" using rand_mod_le [of rand gen "Suc k"] r by simp
  with lt have j: "j < length deck" by linarith
  have "k < length ?d \<or> k = 0" using lt by (simp add: length_swap_cards)
  from Suc.IH [OF this, of gen1] obtain deck' gen' where
    *: "fy_loop rand k (?d, gen1) = Inr (deck', gen')" "mset deck' = mset ?d"
       "length deck' = length ?d"
    by blast
  have "mset ?d = mset deck" using lt j by (rule mset_swap_cards)
  with * show ?case
    unfolding fy_loop_Suc [of rand gen k j gen1 deck, OF r lt]
    by (simp add: length_swap_cards)
qed

lemma fy_loop_fold:
  "k < length deck \<or> k = 0 \<Longrightarrow>
     fy_loop rand k (deck, gen) =
       Inr (fold (\<lambda>i (d, gen). let (j, gen') = rand_mod rand gen i
                               in (d[i := d ! j, j := d ! i], gen'))
                 (fy_indices (Suc k)) (deck, gen))"
proof (induction k arbitrary: deck gen)
  case 0
  then show ?case by (simp add: fy_indices_def)
next
  case (Suc k)
  obtain j gen1 where r: "rand_mod rand gen (Suc k) = (j, gen1)"
    by (cases "rand_mod rand gen (Suc k)")
  let ?d = "swap_cards deck (Suc k) j"
  from Suc.prems have lt: "Suc k < length deck" by simp
  have "k < length ?d \<or> k = 0" using lt by (simp add: length_swap_cards)
  note IH = Suc.IH [OF this, of gen1]
  have ix: "fy_indices (Suc (Suc k)) = Suc k # fy_indices (Suc k)"
    by (simp add: fy_indices_def)
  show ?case
    unfolding fy_loop_Suc [of rand gen k j gen1 deck, OF r lt] IH ix
    by (simp add: r swap_cards_spec)
qed

text \<open>
  C4. Shuffling is deterministic in the seed: two decks with the same initial order,
  shuffled with the same seed, come out in the same order, whatever state the
  generator was in before each of the two calls.
\<close>

theorem FisherYates_deterministic:
  "deck1 = deck2 \<Longrightarrow>
     FisherYates srand rand (deck1, gen1) deck_size seed
       = FisherYates srand rand (deck2, gen2) deck_size seed"
  by (simp add: FisherYates_def)

text \<open>
  Three cards, shuffled twice with the seed 7 from two different generator states.
\<close>

theorem FisherYates_deterministic_witness:
  "[mk_card ''A'' 11, mk_card ''K'' 10, mk_card ''9'' 9]
      = [mk_card ''A'' 11, mk_card ''K'' 10, mk_card ''9'' 9]
   \<and> FisherYates (\<lambda>seed. [nat seed, 1]) replay_rand
         ([mk_card ''A'' 11, mk_card ''K'' 10, mk_card ''9'' 9], []) 3 7
       = FisherYates (\<lambda>seed. [nat seed, 1]) replay_rand
         ([mk_card ''A'' 11, mk_card ''K'' 10, mk_card ''9'' 9], [5, 5]) 3 7"
  using FisherYates_deterministic
    [of "[mk_card ''A'' 11, mk_card ''K'' 10, mk_card ''9'' 9]"
        "[mk_card ''A'' 11, mk_card ''K'' 10, mk_card ''9'' 9]"
        "\<lambda>seed. [nat seed, 1]" replay_rand "[]" 3 7 "[5, 5]"]
  by simp

text \<open>
  C5. For every seed the shuffle returns, and what it returns is a permutation of the
  deck it was given: the same cards as a multiset, none duplicated and none lost.
  This holds whenever the size passed is at most the length of the array, as for the
  52 cards of main.
\<close>

theorem FisherYates_permutation:
  "deck_size \<le> int (length deck) \<Longrightarrow>
     \<exists>deck' gen'. FisherYates srand rand (deck, gen) deck_size seed = Inr (deck', gen')
        \<and> mset deck' = mset deck \<and> length deck' = length deck"
proof -
  assume "deck_size \<le> int (length deck)"
  then have "nat (deck_size - 1) < length deck \<or> nat (deck_size - 1) = 0" by linarith
  from fy_loop_perm [OF this, of rand "srand seed"] show ?thesis
    by (simp add: FisherYates_def)
qed

text \<open>
  The deck of main with the generator of \<open>ex_main\<close>.
\<close>

theorem FisherYates_permutation_witness:
  "DECK_SIZE \<le> int (length (build_deck ex_images))
   \<and> (\<exists>deck' gen'.
         FisherYates (\<lambda>seed. ex_numbers) replay_rand (build_deck ex_images, []) DECK_SIZE 0
           = Inr (deck', gen')
         \<and> mset deck' = mset (build_deck ex_images)
         \<and> length deck' = length (build_deck ex_images))"
proof -
  have h: "DECK_SIZE \<le> int (length (build_deck ex_images))"
    by (simp add: DECK_SIZE_def length_build_deck)
  from FisherYates_permutation [OF h, of "\<lambda>seed. ex_numbers" replay_rand "[]" 0] h
  show ?thesis by simp
qed

lemma rand_mod_eq: "rand_mod rand gen i = (fst (rand gen) mod (i + 1), snd (rand gen))"
  by (simp add: rand_mod_def split: prod.splits)

lemma spec_step_eq:
  "(\<lambda>i (d, gen). let (j, gen') = rand_mod rand gen i in (d[i := d ! j, j := d ! i], gen'))
     = (\<lambda>i (d, gen). let (r, gen') = rand gen; j = r mod (i + 1)
                       in (d[i := d ! j, j := d ! i], gen'))"
  by (simp add: fun_eq_iff rand_mod_def Let_def split: prod.splits)

lemma FisherYates_fold:
  assumes sz: "deck_size = int (length deck)"
  shows "FisherYates srand rand (deck, gen) deck_size seed
         = Inr (shuffle_spec srand rand deck seed)"
proof (cases "length deck = 0")
  case True
  with sz show ?thesis by (simp add: FisherYates_def shuffle_spec_def fy_indices_def)
next
  case False
  then have "0 < length deck" by simp
  with sz have k: "nat (deck_size - 1) < length deck \<or> nat (deck_size - 1) = 0"
    and s: "Suc (nat (deck_size - 1)) = length deck" by linarith+
  show ?thesis
    unfolding FisherYates_def shuffle_spec_def spec_step_eq [symmetric]
    by (simp add: fy_loop_fold [OF k] s)
qed

text \<open>
  C6. The shuffle is the Fisher-Yates procedure of the specification: the generator
  is seeded by the seed, and for \<open>i\<close> from the last index of the deck down to 1 the
  elements \<open>i\<close> and \<open>j\<close> are swapped, \<open>j\<close> being the next number of the generator
  modulo \<open>i + 1\<close>. Each draw of the code takes exactly one number from the
  generator; the index drawn lies in the range from 0 to \<open>i\<close>, and the range
  includes \<open>i\<close>: a number of the generator that is at most \<open>i\<close> is drawn as it is.
\<close>

theorem FisherYates_steps:
  "(deck_size = int (length deck) \<longrightarrow>
      FisherYates srand rand (deck, gen) deck_size seed
        = Inr (shuffle_spec srand rand deck seed))
   \<and> rand_mod rand gen0 i = (fst (rand gen0) mod (i + 1), snd (rand gen0))
   \<and> fst (rand_mod rand gen0 i) \<in> {0..i}
   \<and> (fst (rand gen0) \<le> i \<longrightarrow> fst (rand_mod rand gen0 i) = fst (rand gen0))"
proof (intro conjI impI)
  assume "deck_size = int (length deck)"
  then show "FisherYates srand rand (deck, gen) deck_size seed
        = Inr (shuffle_spec srand rand deck seed)"
    by (rule FisherYates_fold)
next
  show "rand_mod rand gen0 i = (fst (rand gen0) mod (i + 1), snd (rand gen0))"
    by (rule rand_mod_eq)
next
  show "fst (rand_mod rand gen0 i) \<in> {0..i}"
    using rand_mod_le [of rand gen0 i] by simp
next
  assume "fst (rand gen0) \<le> i"
  then show "fst (rand_mod rand gen0 i) = fst (rand gen0)"
    by (simp add: rand_mod_eq)
qed

text \<open>
  Three cards and the seed 8 with a generator that gives 8 and then 0: for \<open>i = 2\<close>
  the index 2 is drawn and nothing moves, for \<open>i = 1\<close> the index 0 is drawn and
  ace and king change places.
\<close>

theorem FisherYates_steps_witness:
  "(3::int) = int (length [mk_card ''A'' 11, mk_card ''K'' 10, mk_card ''9'' 9])
   \<and> FisherYates (\<lambda>seed. [nat seed, 0]) replay_rand
         ([mk_card ''A'' 11, mk_card ''K'' 10, mk_card ''9'' 9], [4, 4]) 3 8
       = Inr (shuffle_spec (\<lambda>seed. [nat seed, 0]) replay_rand
                [mk_card ''A'' 11, mk_card ''K'' 10, mk_card ''9'' 9] 8)
   \<and> FisherYates (\<lambda>seed. [nat seed, 0]) replay_rand
         ([mk_card ''A'' 11, mk_card ''K'' 10, mk_card ''9'' 9], [4, 4]) 3 8
       = Inr ([mk_card ''K'' 10, mk_card ''A'' 11, mk_card ''9'' 9], [])
   \<and> rand_mod replay_rand [8, 0] 2 = (2, [0])
   \<and> fst (rand_mod replay_rand [8, 0] 2) \<in> {0..2}
   \<and> fst (replay_rand [2, 0]) \<le> 2
   \<and> fst (rand_mod replay_rand [2, 0] 2) = 2"
proof -
  have d: "FisherYates (\<lambda>seed. [nat seed, 0]) replay_rand
         ([mk_card ''A'' 11, mk_card ''K'' 10, mk_card ''9'' 9], [4, 4]) 3 8
       = Inr ([mk_card ''K'' 10, mk_card ''A'' 11, mk_card ''9'' 9], [])"
    by code_simp
  have h: "(3::int) = int (length [mk_card ''A'' 11, mk_card ''K'' 10, mk_card ''9'' 9])"
    by simp
  have e: "(fst (replay_rand [8, 0]) mod (2 + 1), snd (replay_rand [8, 0])) = (2, [0])"
    by simp
  have f: "fst (replay_rand [2, 0]) \<le> 2 \<and> fst (replay_rand [2, 0]) = 2" by simp
  from FisherYates_steps
    [of 3 "[mk_card ''A'' 11, mk_card ''K'' 10, mk_card ''9'' 9]"
        "\<lambda>seed. [nat seed, 0]" replay_rand "[4, 4]" 8 "[8, 0]" 2]
    FisherYates_steps
    [of 3 "[mk_card ''A'' 11, mk_card ''K'' 10, mk_card ''9'' 9]"
        "\<lambda>seed. [nat seed, 0]" replay_rand "[4, 4]" 8 "[2, 0]" 2]
    d h e f
  show ?thesis by metis
qed

section \<open>Dealing\<close>

lemma give_one_ok:
  "a < length cs \<Longrightarrow> b < length r \<Longrightarrow>
     give_one cs (r, int a, int b, sc)
       = Inr (r[b := cs ! a], int (Suc a), int (Suc b), add_score sc (cs ! a))"
  by (simp add: give_one_def Let_def)

lemma give_one_end:
  "give_one cs (r, int (length cs), rc, sc) = Inl (OutOfBounds, (r, int (length cs), rc, sc))"
  by (simp add: give_one_def)

lemma take_Suc_update: "b < length r \<Longrightarrow> take (Suc b) (r[b := c]) = take b r @ [c]"
  by (simp add: take_Suc_conv_app_nth)

lemma give_loop_ok:
  "a + n \<le> length cs \<Longrightarrow> b + n \<le> length r \<Longrightarrow>
     give_loop n cs (r, int a, int b, sc)
       = Inr (take b r @ take n (drop a cs) @ drop (b + n) r, int (a + n), int (b + n),
              foldl add_score sc (take n (drop a cs)))"
proof (induction n arbitrary: a b r sc)
  case 0
  then show ?case by simp
next
  case (Suc n)
  from Suc.prems have a: "a < length cs" and b: "b < length r" by simp_all
  have dr: "drop a cs = cs ! a # drop (Suc a) cs"
    using a by (simp add: Cons_nth_drop_Suc)
  have "Suc a + n \<le> length cs" "Suc b + n \<le> length (r[b := cs ! a])"
    using Suc.prems by simp_all
  note IH = Suc.IH [OF this, of "add_score sc (cs ! a)"]
  have "give_loop (Suc n) cs (r, int a, int b, sc)
      = give_loop n cs (r[b := cs ! a], int (Suc a), int (Suc b), add_score sc (cs ! a))"
    by (simp only: give_loop.simps give_one_ok [OF a b] sum.case)
  also note IH
  finally show ?case
    by (simp add: take_Suc_update [OF b] dr)
qed

lemma give_loop_add:
  "give_loop (m + k) cs s =
     (case give_loop m cs s of Inl e \<Rightarrow> Inl e | Inr s' \<Rightarrow> give_loop k cs s')"
  by (induction m arbitrary: s) (simp_all split: sum.splits)

lemma give_loop_exhaust:
  assumes "a \<le> length cs" and "length cs - a < n" and "b + (length cs - a) \<le> length r"
  shows "give_loop n cs (r, int a, int b, sc)
       = Inl (OutOfBounds,
              (take b r @ drop a cs @ drop (b + (length cs - a)) r, int (length cs),
               int (b + (length cs - a)), foldl add_score sc (drop a cs)))"
proof -
  let ?m = "length cs - a"
  obtain k where n: "n = ?m + Suc k"
    using assms(2) by (metis less_iff_Suc_add add_Suc_right)
  have m: "a + ?m \<le> length cs" using assms(1) by simp
  have am: "a + ?m = length cs" using assms(1) by simp
  show ?thesis
    unfolding n give_loop_add give_loop_ok [OF m assms(3)] am
    by (simp add: give_one_end)
qed

lemma giveCards_one_ok:
  assumes "0 \<le> cursor" "cursor < int (length deck)" "0 \<le> held" "held < int (length hand)"
  shows "giveCards deck hand cursor held score 1
       = Inr (hand[nat held := deck ! nat cursor], cursor + 1, held + 1,
              add_score score (deck ! nat cursor))"
proof -
  have a: "nat cursor < length deck" and b: "nat held < length hand"
    using assms by linarith+
  from give_one_ok [OF a b, of score] assms(1,3) show ?thesis
    by (simp add: giveCards_def)
qed

text \<open>
  C3. Dealing one card adds to the running score by the greedy rule: a card of 11
  points (an ace) adds 1 when the score before it is already above 10 and 11
  otherwise; any other card adds its points. So a lone ace scores 11, two aces 12,
  an ace and a ten-valued card 21, and ten, ten, two 22.
\<close>

theorem giveCards_score:
  "(0 \<le> cursor \<and> cursor < int (length deck) \<and> 0 \<le> held \<and> held < int (length hand) \<longrightarrow>
      giveCards deck hand cursor held score 1
        = Inr (hand[nat held := deck ! nat cursor], cursor + 1, held + 1,
               (if card_points (deck ! nat cursor) = 11
                then (if score > 10 then score + 1 else score + 11)
                else score + card_points (deck ! nat cursor))))
   \<and> giveCards [mk_card ''A'' 11] [mk_card [] 0] 0 0 0 1 = Inr ([mk_card ''A'' 11], 1, 1, 11)
   \<and> giveCards [mk_card ''A'' 11, mk_card ''A'' 11] [mk_card [] 0, mk_card [] 0] 0 0 0 2
       = Inr ([mk_card ''A'' 11, mk_card ''A'' 11], 2, 2, 12)
   \<and> giveCards [mk_card ''A'' 11, mk_card ''K'' 10] [mk_card [] 0, mk_card [] 0] 0 0 0 2
       = Inr ([mk_card ''A'' 11, mk_card ''K'' 10], 2, 2, 21)
   \<and> giveCards [mk_card ''T'' 10, mk_card ''T'' 10, mk_card ''2'' 2]
         [mk_card [] 0, mk_card [] 0, mk_card [] 0] 0 0 0 3
       = Inr ([mk_card ''T'' 10, mk_card ''T'' 10, mk_card ''2'' 2], 3, 3, 22)"
proof -
  have ex: "\<And>cs bl. length bl = length cs \<Longrightarrow>
      giveCards cs bl 0 0 0 (int (length cs)) = Inr (cs, int (length cs), int (length cs), foldl add_score 0 cs)"
    using give_loop_ok [of 0 _ _ 0 _ 0] by (simp add: giveCards_def)
  have 1: "giveCards [mk_card ''A'' 11] [mk_card [] 0] 0 0 0 1 = Inr ([mk_card ''A'' 11], 1, 1, 11)"
    using ex [of "[mk_card [] 0]" "[mk_card ''A'' 11]"] by (simp add: add_score_def mk_card_def)
  have 2: "giveCards [mk_card ''A'' 11, mk_card ''A'' 11] [mk_card [] 0, mk_card [] 0] 0 0 0 2
       = Inr ([mk_card ''A'' 11, mk_card ''A'' 11], 2, 2, 12)"
    using ex [of "[mk_card [] 0, mk_card [] 0]" "[mk_card ''A'' 11, mk_card ''A'' 11]"]
    by (simp add: add_score_def mk_card_def)
  have 3: "giveCards [mk_card ''A'' 11, mk_card ''K'' 10] [mk_card [] 0, mk_card [] 0] 0 0 0 2
       = Inr ([mk_card ''A'' 11, mk_card ''K'' 10], 2, 2, 21)"
    using ex [of "[mk_card [] 0, mk_card [] 0]" "[mk_card ''A'' 11, mk_card ''K'' 10]"]
    by (simp add: add_score_def mk_card_def)
  have 4: "giveCards [mk_card ''T'' 10, mk_card ''T'' 10, mk_card ''2'' 2]
         [mk_card [] 0, mk_card [] 0, mk_card [] 0] 0 0 0 3
       = Inr ([mk_card ''T'' 10, mk_card ''T'' 10, mk_card ''2'' 2], 3, 3, 22)"
    using ex [of "[mk_card [] 0, mk_card [] 0, mk_card [] 0]" "[mk_card ''T'' 10, mk_card ''T'' 10, mk_card ''2'' 2]"]
    by (simp add: add_score_def mk_card_def)
  have g: "0 \<le> cursor \<and> cursor < int (length deck) \<and> 0 \<le> held \<and> held < int (length hand) \<longrightarrow>
      giveCards deck hand cursor held score 1
        = Inr (hand[nat held := deck ! nat cursor], cursor + 1, held + 1,
               (if card_points (deck ! nat cursor) = 11
                then (if score > 10 then score + 1 else score + 11)
                else score + card_points (deck ! nat cursor)))"
    by (simp add: giveCards_one_ok add_score_def Let_def)
  from g 1 2 3 4 show ?thesis by blast
qed

text \<open>
  A king dealt to a hand that holds an ace: 21.
\<close>

theorem giveCards_score_witness:
  "0 \<le> (1::int) \<and> (1::int) < int (length [mk_card ''A'' 11, mk_card ''K'' 10])
   \<and> 0 \<le> (1::int) \<and> (1::int) < int (length [mk_card ''A'' 11, mk_card [] 0])
   \<and> giveCards [mk_card ''A'' 11, mk_card ''K'' 10] [mk_card ''A'' 11, mk_card [] 0] 1 1 11 1
        = Inr ([mk_card ''A'' 11, mk_card ''K'' 10], 2, 2, 21)"
  using giveCards_score [of 1 "[mk_card ''A'' 11, mk_card ''K'' 10]" 1 "[mk_card ''A'' 11, mk_card [] 0]" 11]
  by (simp add: mk_card_def)

text \<open>
  C2, as stated, fails: \<open>giveCards\<close> has no check of the cards left. With one
  card left in the deck of main and two asked for, it has dealt that card (the hand,
  the count, the score and the cursor have changed) when it reads beyond the deck.
\<close>

theorem giveCards_partial_deal:
  "giveCards (build_deck ex_images) ex_blank 51 0 0 2
      = Inl (OutOfBounds, (ex_blank[0 := mk_card ''2'' 2], 52, 1, 2))
   \<and> (ex_blank[0 := mk_card ''2'' 2], 52::int, 1::int, 2::int) \<noteq> (ex_blank, 51, 0, 0)"
  by code_simp

text \<open>
  C2, amended. When the amount asked for exceeds the number of cards left, and the
  hand has room for the cards left, \<open>giveCards\<close> deals every card that is left,
  one by one, into the hand, with the score, the count and the cursor updated for
  each, and then reads beyond the end of the deck: no failure is reported and the
  deal is partial.
\<close>

theorem giveCards_exhausted:
  "0 \<le> cursor \<and> cursor \<le> int (length deck) \<and> int (length deck) - cursor < amount
   \<and> 0 \<le> held \<and> held + (int (length deck) - cursor) \<le> int (length hand) \<longrightarrow>
     giveCards deck hand cursor held score amount
       = Inl (OutOfBounds,
              (take (nat held) hand @ drop (nat cursor) deck
                 @ drop (nat held + (length deck - nat cursor)) hand,
               int (length deck), held + (int (length deck) - cursor),
               foldl add_score score (drop (nat cursor) deck)))"
proof
  assume h: "0 \<le> cursor \<and> cursor \<le> int (length deck) \<and> int (length deck) - cursor < amount
   \<and> 0 \<le> held \<and> held + (int (length deck) - cursor) \<le> int (length hand)"
  then have 1: "nat cursor \<le> length deck" and 2: "length deck - nat cursor < nat amount"
    and 3: "nat held + (length deck - nat cursor) \<le> length hand"
    and 4: "int (length deck - nat cursor) = int (length deck) - cursor" by linarith+
  from give_loop_exhaust [OF 1 2 3, of score] h show
    "giveCards deck hand cursor held score amount
       = Inl (OutOfBounds,
              (take (nat held) hand @ drop (nat cursor) deck
                 @ drop (nat held + (length deck - nat cursor)) hand,
               int (length deck), held + (int (length deck) - cursor),
               foldl add_score score (drop (nat cursor) deck)))"
    by (simp add: giveCards_def 4)
qed

text \<open>
  Three cards asked for with two left: both are dealt, then the read goes beyond
  the end of the deck.
\<close>

theorem giveCards_exhausted_witness:
  "0 \<le> (1::int) \<and> (1::int) \<le> int (length [mk_card ''A'' 11, mk_card ''K'' 10, mk_card ''9'' 9])
   \<and> int (length [mk_card ''A'' 11, mk_card ''K'' 10, mk_card ''9'' 9]) - 1 < 3
   \<and> 0 \<le> (0::int)
   \<and> 0 + (int (length [mk_card ''A'' 11, mk_card ''K'' 10, mk_card ''9'' 9]) - 1)
       \<le> int (length [mk_card [] 0, mk_card [] 0, mk_card [] 0])
   \<and> giveCards [mk_card ''A'' 11, mk_card ''K'' 10, mk_card ''9'' 9]
         [mk_card [] 0, mk_card [] 0, mk_card [] 0] 1 0 0 3
       = Inl (OutOfBounds, ([mk_card ''K'' 10, mk_card ''9'' 9, mk_card [] 0], 3, 2, 19))"
  using giveCards_exhausted [of 1 "[mk_card ''A'' 11, mk_card ''K'' 10, mk_card ''9'' 9]" 3 0
      "[mk_card [] 0, mk_card [] 0, mk_card [] 0]" 0]
  by (simp add: mk_card_def add_score_def)

section \<open>The opening deals\<close>

lemma giveCards_ok:
  "a + n \<le> length deck \<Longrightarrow> b + n \<le> length hand \<Longrightarrow>
     giveCards deck hand (int a) (int b) score (int n)
       = Inr (take b hand @ take n (drop a deck) @ drop (b + n) hand, int (a + n), int (b + n),
              foldl add_score score (take n (drop a deck)))"
  by (simp add: giveCards_def give_loop_ok)

lemma drop_SS: "drop (Suc (Suc 0)) xs = drop 2 xs"
  by (simp add: numeral_2_eq_2)

lemma take2: "2 \<le> length xs \<Longrightarrow> take 2 xs = [xs ! 0, xs ! 1]"
  by (cases xs; cases "tl xs") (auto simp: numeral_2_eq_2)

lemma deal_player_one:
  assumes "0 \<le> card_count g" "card_count g < int (length (cards g))"
    "0 \<le> player_count g" "player_count g < int (length (player g))"
  shows "deal_player g 1
       = Inr (g\<lparr>card_count := card_count g + 1,
                player := (player g)[nat (player_count g) := cards g ! nat (card_count g)],
                player_count := player_count g + 1,
                player_score := add_score (player_score g) (cards g ! nat (card_count g))\<rparr>)"
  by (simp add: deal_player_def giveCards_one_ok [OF assms])

lemma deal_dealer_one:
  assumes "0 \<le> card_count g" "card_count g < int (length (cards g))"
    "0 \<le> dealer_count g" "dealer_count g < int (length (dealer g))"
  shows "deal_dealer g 1
       = Inr (g\<lparr>card_count := card_count g + 1,
                dealer := (dealer g)[nat (dealer_count g) := cards g ! nat (card_count g)],
                dealer_count := dealer_count g + 1,
                dealer_score := add_score (dealer_score g) (cards g ! nat (card_count g))\<rparr>)"
  by (simp add: deal_dealer_def giveCards_one_ok [OF assms])

lemma start_eq:
  assumes "4 \<le> length cards0" "2 \<le> length player0" "2 \<le> length dealer0"
  shows "start cards0 player0 dealer0 =
     (let g2 = \<lparr>cards = cards0, card_count = 4,
                 dealer = [cards0 ! 2, cards0 ! 3] @ drop 2 dealer0,
                 player = [cards0 ! 0, cards0 ! 1] @ drop 2 player0,
                 dealer_count = 2, player_count = 2,
                 dealer_score = add_score (add_score 0 (cards0 ! 2)) (cards0 ! 3),
                 player_score = add_score (add_score 0 (cards0 ! 0)) (cards0 ! 1),
                 players_turn = 1\<rparr>
      in if player_score g2 = 21
         then (if dealer_score g2 \<noteq> 21
               then Stop [''BLACKJACK! '', ''YOU WIN!''] g2
               else Stop [''BLACKJACK! '', ''BLACKJACK! PUSH!''] g2)
         else Next g2)"
proof -
  have p: "giveCards cards0 player0 0 0 0 2
      = Inr ([cards0 ! 0, cards0 ! 1] @ drop 2 player0, 2, 2,
             add_score (add_score 0 (cards0 ! 0)) (cards0 ! 1))"
    using assms giveCards_ok [of 0 2 cards0 0 player0 0] by (simp add: take2 drop_SS)
  have l: "2 \<le> length (drop 2 cards0)" using assms(1) by simp
  have d: "giveCards cards0 dealer0 2 0 0 2
      = Inr ([cards0 ! 2, cards0 ! 3] @ drop 2 dealer0, 4, 2,
             add_score (add_score 0 (cards0 ! 2)) (cards0 ! 3))"
    using assms giveCards_ok [of 2 2 cards0 0 dealer0 0] by (simp add: take2 [OF l] drop_SS)
  show ?thesis
    by (simp add: start_def deal_player_def deal_dealer_def p d Let_def)
qed

section \<open>The invariant holds throughout the game\<close>

lemma add_score_range:
  "2 \<le> card_points c \<Longrightarrow> card_points c \<le> 11 \<Longrightarrow>
     sc + 1 \<le> add_score sc c \<and> add_score sc c \<le> sc + 11"
  by (simp add: add_score_def Let_def)

lemma add_score_pos: "0 < card_points c \<Longrightarrow> sc + 1 \<le> add_score sc c"
  by (simp add: add_score_def Let_def)

lemma two_cards_range:
  assumes "2 \<le> card_points c1" "card_points c1 \<le> 11" "2 \<le> card_points c2" "card_points c2 \<le> 11"
  shows "2 \<le> add_score (add_score 0 c1) c2 \<and> add_score (add_score 0 c1) c2 \<le> 21"
  using assms by (simp add: add_score_def Let_def)

lemma deck_ok_nth:
  "deck_ok cs \<Longrightarrow> i < 52 \<Longrightarrow> 2 \<le> card_points (cs ! i) \<and> card_points (cs ! i) \<le> 11"
  by (simp add: deck_ok_def list_all_length)

lemma start_inv:
  assumes ok: "deck_ok cards0" and p: "length player0 = 52" and d: "length dealer0 = 52"
    and st: "start cards0 player0 dealer0 = Next g"
  shows "game_inv g \<and> players_turn g = 1"
proof -
  have len: "4 \<le> length cards0" "2 \<le> length player0" "2 \<le> length dealer0"
    using ok p d by (simp_all add: deck_ok_def)
  note c0 = deck_ok_nth [OF ok, of 0] and c1 = deck_ok_nth [OF ok, of 1]
    and c2 = deck_ok_nth [OF ok, of 2] and c3 = deck_ok_nth [OF ok, of 3]
  have ps: "2 \<le> add_score (add_score 0 (cards0 ! 0)) (cards0 ! 1)
      \<and> add_score (add_score 0 (cards0 ! 0)) (cards0 ! 1) \<le> 21"
    using c0 c1 by (intro two_cards_range) simp_all
  have ds: "2 \<le> add_score (add_score 0 (cards0 ! 2)) (cards0 ! 3)
      \<and> add_score (add_score 0 (cards0 ! 2)) (cards0 ! 3) \<le> 21"
    using c2 c3 by (intro two_cards_range) simp_all
  let ?g2 = "\<lparr>cards = cards0, card_count = 4,
                 dealer = [cards0 ! 2, cards0 ! 3] @ drop 2 dealer0,
                 player = [cards0 ! 0, cards0 ! 1] @ drop 2 player0,
                 dealer_count = 2, player_count = 2,
                 dealer_score = add_score (add_score 0 (cards0 ! 2)) (cards0 ! 3),
                 player_score = add_score (add_score 0 (cards0 ! 0)) (cards0 ! 1),
                 players_turn = 1\<rparr>"
  from st have g: "g = ?g2" and n: "player_score ?g2 \<noteq> 21"
    unfolding start_eq [OF len] Let_def by (simp_all split: if_splits)
  from n ps have "player_score ?g2 \<le> 20" by simp
  with ps ds ok p d have "game_inv ?g2" by (simp add: game_inv_def)
  with g show ?thesis by simp
qed

lemma game_inv_room:
  assumes "game_inv g"
  shows "dealer_score g < player_score g \<Longrightarrow>
           0 \<le> card_count g \<and> card_count g < 52 \<and> 0 \<le> dealer_count g \<and> dealer_count g < 52"
    and "players_turn g \<noteq> 0 \<Longrightarrow>
           0 \<le> card_count g \<and> card_count g < 52 \<and> 0 \<le> player_count g \<and> player_count g < 52"
  using assms by (auto simp: game_inv_def)

lemma game_inv_card:
  assumes "game_inv g" "0 \<le> card_count g" "card_count g < 52"
  shows "2 \<le> card_points (cards g ! nat (card_count g))
     \<and> card_points (cards g ! nat (card_count g)) \<le> 11"
proof -
  have "nat (card_count g) < 52" using assms(2,3) by linarith
  moreover have "deck_ok (cards g)" using assms(1) by (simp add: game_inv_def)
  ultimately show ?thesis by (rule deck_ok_nth [rotated])
qed

lemma dealer_draws_inv:
  "game_inv g \<Longrightarrow> players_turn g = 0 \<Longrightarrow>
     \<exists>g'. dealer_draws g = Inr g' \<and> game_inv g' \<and> players_turn g' = 0
        \<and> player_score g' = player_score g \<and> player_score g' \<le> dealer_score g'"
proof (induction g rule: dealer_draws.induct)
  case (1 g)
  show ?case
  proof (cases "dealer_score g < player_score g")
    case False
    with "1.prems" show ?thesis by (simp add: dealer_draws.simps [of g])
  next
    case True
    let ?c = "cards g ! nat (card_count g)"
    let ?g1 = "g\<lparr>card_count := card_count g + 1,
                dealer := (dealer g)[nat (dealer_count g) := ?c],
                dealer_count := dealer_count g + 1,
                dealer_score := add_score (dealer_score g) ?c\<rparr>"
    note r = game_inv_room(1) [OF "1.prems"(1) True]
    have l: "length (cards g) = 52" "length (dealer g) = 52"
      using "1.prems"(1) by (simp_all add: game_inv_def deck_ok_def)
    have b: "0 \<le> card_count g" "card_count g < int (length (cards g))"
        "0 \<le> dealer_count g" "dealer_count g < int (length (dealer g))"
      using r l by simp_all
    have d: "deal_dealer g 1 = Inr ?g1" by (rule deal_dealer_one [OF b])
    from game_inv_card [OF "1.prems"(1)] r
    have c: "2 \<le> card_points ?c \<and> card_points ?c \<le> 11" by simp
    from add_score_range [of ?c "dealer_score g"] c
    have s: "dealer_score g + 1 \<le> add_score (dealer_score g) ?c" by simp
    have inv1: "game_inv ?g1"
      using "1.prems" True s unfolding game_inv_def by simp
    have t1: "players_turn ?g1 = 0" using "1.prems" by simp
    from "1.IH" [OF True d inv1 t1] obtain g' where
      "dealer_draws ?g1 = Inr g'" "game_inv g'" "players_turn g' = 0"
      "player_score g' = player_score ?g1" "player_score g' \<le> dealer_score g'" by blast
    moreover have "dealer_draws g = dealer_draws ?g1"
      using True d by (simp add: dealer_draws.simps [of g])
    ultimately show ?thesis by simp
  qed
qed

lemma dealers_turn_inv:
  assumes "game_inv g" "players_turn g = 0"
  shows "(\<forall>e. dealers_turn g \<noteq> Crash e) \<and> (\<forall>g'. dealers_turn g = Next g' \<longrightarrow> game_inv g')"
proof -
  from dealer_draws_inv [OF assms] obtain g1 where
    g1: "dealer_draws g = Inr g1" "game_inv g1" "players_turn g1 = 0"
      "player_score g1 = player_score g" "player_score g1 \<le> dealer_score g1" by blast
  have "\<not> 21 < dealer_score g1 \<Longrightarrow> dealer_score g1 \<noteq> 21 \<Longrightarrow> game_inv (g1\<lparr>players_turn := 1\<rparr>)"
    using g1 by (simp add: game_inv_def)
  then show ?thesis
    by (simp add: dealers_turn_def g1(1))
qed

lemma players_move_hit:
  assumes "game_inv g" "players_turn g \<noteq> 0"
  shows "\<exists>g'. g' = g\<lparr>card_count := card_count g + 1,
                player := (player g)[nat (player_count g) := cards g ! nat (card_count g)],
                player_count := player_count g + 1,
                player_score := add_score (player_score g) (cards g ! nat (card_count g))\<rparr>
     \<and> deal_player g 1 = Inr g'
     \<and> player_score g + 1 \<le> player_score g'
     \<and> (player_score g' \<le> 21 \<longrightarrow> game_inv (g'\<lparr>players_turn := (if player_score g' = 21 then 0 else players_turn g)\<rparr>))"
proof -
  let ?c = "cards g ! nat (card_count g)"
  note r = game_inv_room(2) [OF assms]
  have l: "length (cards g) = 52" "length (player g) = 52"
    using assms(1) by (simp_all add: game_inv_def deck_ok_def)
  have b: "0 \<le> card_count g" "card_count g < int (length (cards g))"
      "0 \<le> player_count g" "player_count g < int (length (player g))"
    using r l by simp_all
  from game_inv_card [OF assms(1)] r
  have c: "2 \<le> card_points ?c \<and> card_points ?c \<le> 11" by simp
  from add_score_range [of ?c "player_score g"] c
  have s: "player_score g + 1 \<le> add_score (player_score g) ?c" by simp
  have i: "add_score (player_score g) ?c \<le> 21 \<Longrightarrow> game_inv
      (g\<lparr>card_count := card_count g + 1,
         player := (player g)[nat (player_count g) := ?c],
         player_count := player_count g + 1,
         player_score := add_score (player_score g) ?c,
         players_turn := (if add_score (player_score g) ?c = 21 then 0 else players_turn g)\<rparr>)"
    using assms s unfolding game_inv_def by simp
  show ?thesis
    using s i by (simp add: deal_player_one [OF b])
qed

lemma players_move_hit_eq:
  "deal_player g 1 = Inr g1 \<Longrightarrow>
     players_move g ''h'' =
       (if player_score g1 = 21 then Next (g1\<lparr>players_turn := 0\<rparr>)
        else if player_score g1 > 21 then Stop [''BUST! YOU LOOSE!''] g1
        else Next g1)"
  by (simp add: players_move_def OPTION_INPUT_LENGTH_def)

lemma players_move_stand_eq: "players_move g ''s'' = Next (g\<lparr>players_turn := 0\<rparr>)"
  by (simp add: players_move_def OPTION_INPUT_LENGTH_def)

lemma players_move_other_eq:
  "length w < OPTION_INPUT_LENGTH \<Longrightarrow> w \<noteq> ''h'' \<Longrightarrow> w \<noteq> ''s'' \<Longrightarrow> players_move g w = Next g"
  by (simp add: players_move_def)

lemma players_move_long:
  "OPTION_INPUT_LENGTH \<le> length w \<Longrightarrow> players_move g w = Crash BufferOverflow"
  by (simp add: players_move_def)

lemma players_move_inv:
  assumes "game_inv g" "players_turn g \<noteq> 0"
  shows "\<forall>g'. players_move g w = Next g' \<longrightarrow> game_inv g'"
proof -
  consider (long) "OPTION_INPUT_LENGTH \<le> length w" | (hit) "w = ''h''" | (stand) "w = ''s''"
    | (other) "length w < OPTION_INPUT_LENGTH" "w \<noteq> ''h''" "w \<noteq> ''s''"
    by linarith
  then show ?thesis
  proof cases
    case long
    then show ?thesis by (simp add: players_move_long)
  next
    case hit
    from players_move_hit [OF assms] obtain g1 where
      d: "deal_player g 1 = Inr g1"
      and i: "player_score g1 \<le> 21 \<longrightarrow> game_inv
          (g1\<lparr>players_turn := (if player_score g1 = 21 then 0 else players_turn g)\<rparr>)"
      and t: "players_turn g1 = players_turn g"
      by auto
    have k: "g1\<lparr>players_turn := players_turn g\<rparr> = g1" using t by (cases g1) simp
    show ?thesis
    proof (cases "player_score g1 = 21")
      case True
      with i show ?thesis unfolding hit players_move_hit_eq [OF d] by simp
    next
      case False
      show ?thesis
      proof (cases "player_score g1 > 21")
        case True
        with False show ?thesis unfolding hit players_move_hit_eq [OF d] by simp
      next
        case b: False
        with False i have "game_inv (g1\<lparr>players_turn := players_turn g\<rparr>)" by simp
        then have "game_inv g1" unfolding k .
        with False b show ?thesis unfolding hit players_move_hit_eq [OF d] by simp
      qed
    qed
  next
    case stand
    have "game_inv (g\<lparr>players_turn := 0\<rparr>)" using assms by (simp add: game_inv_def)
    then show ?thesis unfolding stand players_move_stand_eq by simp
  next
    case other
    with assms(1) show ?thesis by (simp add: players_move_other_eq)
  qed
qed

lemma step_inv:
  assumes "game_inv g"
  shows "\<forall>g'. step g w = Next g' \<longrightarrow> game_inv g'"
proof (cases "players_turn g = 0")
  case True
  then have eq: "step g w = dealers_turn g" by (simp add: step_def)
  show ?thesis unfolding eq by (rule dealers_turn_inv [OF assms True, THEN conjunct2])
next
  case False
  then have eq: "step g w = players_move g w" by (simp add: step_def)
  show ?thesis unfolding eq by (rule players_move_inv [OF assms False])
qed

lemma run_inv:
  "game_inv g \<Longrightarrow> run g ws = Next g' \<Longrightarrow> game_inv g'"
proof (induction ws arbitrary: g)
  case Nil
  then show ?case by simp
next
  case (Cons w ws)
  show ?case
  proof (cases "step g w")
    case (Next g1)
    with step_inv [OF Cons.prems(1), of w] have "game_inv g1" by simp
    from Cons.IH [OF this] Cons.prems(2) Next show ?thesis by simp
  next
    case (Stop m g1)
    with Cons.prems(2) show ?thesis by simp
  next
    case (Crash e)
    with Cons.prems(2) show ?thesis by simp
  qed
qed

section \<open>The deck of main and the dealer's loop\<close>

lemma list_all_points: "list_all (\<lambda>p. 2 \<le> p \<and> p \<le> 11) points"
  by (simp add: points_def)

lemma deck_ok_build_deck: "deck_ok (build_deck card_images)"
proof -
  have "\<And>i. i < 13 \<Longrightarrow> 2 \<le> points ! i \<and> points ! i \<le> 11"
    using list_all_points by (simp add: list_all_length points_def)
  then have "list_all (\<lambda>c. 2 \<le> card_points c \<and> card_points c \<le> 11) (build_deck card_images)"
    by (auto simp: list_all_iff build_deck_def NUM_CARDS_def mk_card_def)
  then show ?thesis
    by (simp add: deck_ok_def length_build_deck)
qed

lemma deck_ok_mset: "mset deck' = mset deck \<Longrightarrow> deck_ok deck \<Longrightarrow> deck_ok deck'"
  using mset_eq_length [of deck' deck] mset_eq_setD [of deck' deck]
  by (simp add: deck_ok_def list_all_iff)

lemma main_game_inv:
  assumes "length player0 = 52" "length dealer0 = 52"
    and "main_game srand rand card_images seed gen player0 dealer0 = Next g0"
  shows "game_inv g0 \<and> players_turn g0 = 1"
proof -
  have "DECK_SIZE \<le> int (length (build_deck card_images))"
    by (simp add: DECK_SIZE_def length_build_deck)
  then have "nat (DECK_SIZE - 1) < length (build_deck card_images) \<or> nat (DECK_SIZE - 1) = 0"
    by linarith
  from fy_loop_perm [OF this, of rand "srand seed"] obtain cards0 gen' where
    f: "FisherYates srand rand (build_deck card_images, gen) DECK_SIZE seed = Inr (cards0, gen')"
    and m: "mset cards0 = mset (build_deck card_images)"
    by (auto simp: FisherYates_def)
  have ok: "deck_ok cards0" using m deck_ok_build_deck by (rule deck_ok_mset)
  from assms(3) have "start cards0 player0 dealer0 = Next g0"
    by (simp add: main_game_def f)
  with ok assms(1,2) show ?thesis by (rule start_inv)
qed

lemma deal_dealer_keeps:
  "deal_dealer g n = Inr g' \<Longrightarrow>
     cards g' = cards g \<and> player g' = player g \<and> player_count g' = player_count g
     \<and> player_score g' = player_score g \<and> players_turn g' = players_turn g"
  by (auto simp: deal_dealer_def Let_def split: sum.splits prod.splits)

lemma dealer_draws_exit:
  "dealer_draws g = Inr g' \<Longrightarrow>
     player_score g' = player_score g \<and> player_score g' \<le> dealer_score g'"
proof (induction g rule: dealer_draws.induct)
  case (1 g)
  show ?case
  proof (cases "dealer_score g < player_score g")
    case False
    with "1.prems" show ?thesis by (simp add: dealer_draws.simps [of g])
  next
    case True
    with "1.prems" obtain g1 where d: "deal_dealer g 1 = Inr g1" and r: "dealer_draws g1 = Inr g'"
      by (auto simp: dealer_draws.simps [of g] split: sum.splits)
    from "1.IH" [OF True d r] deal_dealer_keeps [OF d] show ?thesis by simp
  qed
qed

lemma dealer_draws_terminates:
  "\<forall>c\<in>set (cards g). 0 < card_points c \<Longrightarrow> 0 \<le> card_count g \<Longrightarrow> 0 \<le> dealer_count g \<Longrightarrow>
   player_score g - dealer_score g \<le> int (length (cards g)) - card_count g \<Longrightarrow>
   player_score g - dealer_score g \<le> int (length (dealer g)) - dealer_count g \<Longrightarrow>
     \<exists>g'. dealer_draws g = Inr g' \<and> player_score g' = player_score g
        \<and> player_score g \<le> dealer_score g'
        \<and> card_count g \<le> card_count g'
        \<and> card_count g' - card_count g \<le> max 0 (player_score g - dealer_score g)"
proof (induction g rule: dealer_draws.induct)
  case (1 g)
  show ?case
  proof (cases "dealer_score g < player_score g")
    case False
    then show ?thesis by (simp add: dealer_draws.simps [of g])
  next
    case True
    let ?c = "cards g ! nat (card_count g)"
    let ?g1 = "g\<lparr>card_count := card_count g + 1,
                dealer := (dealer g)[nat (dealer_count g) := ?c],
                dealer_count := dealer_count g + 1,
                dealer_score := add_score (dealer_score g) ?c\<rparr>"
    have b: "0 \<le> card_count g" "card_count g < int (length (cards g))"
        "0 \<le> dealer_count g" "dealer_count g < int (length (dealer g))"
      using "1.prems" True by linarith+
    have d: "deal_dealer g 1 = Inr ?g1" by (rule deal_dealer_one [OF b])
    have "nat (card_count g) < length (cards g)" using b by linarith
    then have "?c \<in> set (cards g)" by (rule nth_mem)
    with "1.prems"(1) have "0 < card_points ?c" by blast
    then have s: "dealer_score g + 1 \<le> add_score (dealer_score g) ?c" by (rule add_score_pos)
    have p1: "\<forall>c\<in>set (cards ?g1). 0 < card_points c" using "1.prems"(1) by simp
    have p2: "0 \<le> card_count ?g1" "0 \<le> dealer_count ?g1" using b by simp_all
    have p3: "player_score ?g1 - dealer_score ?g1 \<le> int (length (cards ?g1)) - card_count ?g1"
      using "1.prems"(4) s by simp
    have p4: "player_score ?g1 - dealer_score ?g1 \<le> int (length (dealer ?g1)) - dealer_count ?g1"
      using "1.prems"(5) s by simp
    from "1.IH" [OF True d p1 p2 p3 p4] obtain g' where
      r: "dealer_draws ?g1 = Inr g'" and k: "player_score g' = player_score g"
        "player_score g \<le> dealer_score g'" "card_count g + 1 \<le> card_count g'"
        "card_count g' - (card_count g + 1)
           \<le> max 0 (player_score g - add_score (dealer_score g) ?c)"
      by auto
    have e: "dealer_draws g = dealer_draws ?g1"
      using True d by (simp add: dealer_draws.simps [of g])
    have "card_count g \<le> card_count g'"
      "card_count g' - card_count g \<le> max 0 (player_score g - dealer_score g)"
      using k(3,4) s True by linarith+
    with k(1,2) r show ?thesis unfolding e by simp
  qed
qed

lemma points_positive: "p \<in> set points \<Longrightarrow> 0 < p"
  by (auto simp: points_def)

section \<open>The turns\<close>

text \<open>
  C1, as stated, fails. In the game \<open>ex_main\<close> the player stands at 17, the dealer
  has 12 with two cards and draws a 7: the loop ends with 19 against 17, not 21 and
  not above 21. The engine prints no verdict and does not stop: the next iteration is
  the player's again.
\<close>

theorem dealer_catches_up_no_verdict:
  "ex_main = Next ex_dealt
   \<and> step ex_dealt ''s'' = Next ex_stood
   \<and> players_turn ex_stood = 0 \<and> dealer_count ex_stood = 2
   \<and> player_score ex_stood = 17 \<and> dealer_score ex_stood = 12
   \<and> step ex_stood [] = Next ex_back
   \<and> player_score ex_back = 17 \<and> dealer_score ex_back = 19 \<and> dealer_count ex_back = 3
   \<and> players_turn ex_back = 1"
  by code_simp

text \<open>
  C1, amended. In the dealer's turn, when the dealer has no two-card 21 and the draw
  loop ends with a dealer score that is not 21 and not above 21, the dealer score is
  at least the player's, no verdict is printed, and the engine sets
  \<open>players_turn\<close> to 1: with the hands as the loop left them, the next iteration
  is the player's.
\<close>

theorem dealer_stands_turn_returns:
  "players_turn g = 0 \<and> \<not> (dealer_score g = 21 \<and> dealer_count g = 2)
   \<and> dealer_draws g = Inr g' \<and> dealer_score g' \<noteq> 21 \<and> dealer_score g' \<le> 21 \<longrightarrow>
     player_score g' \<le> dealer_score g' \<and> step g option = Next (g'\<lparr>players_turn := 1\<rparr>)"
proof
  assume h: "players_turn g = 0 \<and> \<not> (dealer_score g = 21 \<and> dealer_count g = 2)
   \<and> dealer_draws g = Inr g' \<and> dealer_score g' \<noteq> 21 \<and> dealer_score g' \<le> 21"
  then have d: "dealer_draws g = Inr g'" by simp
  have "step g option = dealers_turn g" using h by (simp add: step_def)
  also have "\<dots> = Next (g'\<lparr>players_turn := 1\<rparr>)"
    using h by (auto simp: dealers_turn_def)
  finally show "player_score g' \<le> dealer_score g' \<and> step g option = Next (g'\<lparr>players_turn := 1\<rparr>)"
    using dealer_draws_exit [OF d] by simp
qed

text \<open>
  The hypotheses of the amended C1 hold in the game \<open>ex_main\<close> after the player has
  stood.
\<close>

theorem dealer_stands_turn_returns_witness:
  "players_turn ex_stood = 0 \<and> \<not> (dealer_score ex_stood = 21 \<and> dealer_count ex_stood = 2)
   \<and> dealer_draws ex_stood = Inr (ex_back\<lparr>players_turn := 0\<rparr>)
   \<and> dealer_score (ex_back\<lparr>players_turn := 0\<rparr>) \<noteq> 21
   \<and> dealer_score (ex_back\<lparr>players_turn := 0\<rparr>) \<le> 21
   \<and> player_score (ex_back\<lparr>players_turn := 0\<rparr>) \<le> dealer_score (ex_back\<lparr>players_turn := 0\<rparr>)
   \<and> step ex_stood ''s'' = Next (ex_back\<lparr>players_turn := 0, players_turn := 1\<rparr>)"
proof -
  have h: "players_turn ex_stood = 0 \<and> \<not> (dealer_score ex_stood = 21 \<and> dealer_count ex_stood = 2)
   \<and> dealer_draws ex_stood = Inr (ex_back\<lparr>players_turn := 0\<rparr>)
   \<and> dealer_score (ex_back\<lparr>players_turn := 0\<rparr>) \<noteq> 21
   \<and> dealer_score (ex_back\<lparr>players_turn := 0\<rparr>) \<le> 21"
    by code_simp
  from dealer_stands_turn_returns [of ex_stood "ex_back\<lparr>players_turn := 0\<rparr>" "''s''"] h
  show ?thesis by blast
qed

text \<open>
  C7. After the opening deals, two cards to the player and then two to the dealer
  from the same cursor, a player score of 21 ends the game before the loop of turns
  is entered: the verdict is the player's blackjack (\<open>BLACKJACK! YOU WIN!\<close>) when the
  dealer's two cards do not score 21, and the push (\<open>BLACKJACK! BLACKJACK! PUSH!\<close>)
  when they do.
\<close>

theorem player_blackjack_at_start:
  "4 \<le> length cards0 \<and> 2 \<le> length player0 \<and> 2 \<le> length dealer0
   \<and> add_score (add_score 0 (cards0 ! 0)) (cards0 ! 1) = 21 \<longrightarrow>
     start cards0 player0 dealer0 =
       Stop (if add_score (add_score 0 (cards0 ! 2)) (cards0 ! 3) \<noteq> 21
             then [''BLACKJACK! '', ''YOU WIN!'']
             else [''BLACKJACK! '', ''BLACKJACK! PUSH!''])
         \<lparr>cards = cards0, card_count = 4,
          dealer = [cards0 ! 2, cards0 ! 3] @ drop 2 dealer0,
          player = [cards0 ! 0, cards0 ! 1] @ drop 2 player0,
          dealer_count = 2, player_count = 2,
          dealer_score = add_score (add_score 0 (cards0 ! 2)) (cards0 ! 3),
          player_score = 21, players_turn = 1\<rparr>"
proof
  assume h: "4 \<le> length cards0 \<and> 2 \<le> length player0 \<and> 2 \<le> length dealer0
   \<and> add_score (add_score 0 (cards0 ! 0)) (cards0 ! 1) = 21"
  then have len: "4 \<le> length cards0" "2 \<le> length player0" "2 \<le> length dealer0"
    by simp_all
  from h show "start cards0 player0 dealer0 =
       Stop (if add_score (add_score 0 (cards0 ! 2)) (cards0 ! 3) \<noteq> 21
             then [''BLACKJACK! '', ''YOU WIN!'']
             else [''BLACKJACK! '', ''BLACKJACK! PUSH!''])
         \<lparr>cards = cards0, card_count = 4,
          dealer = [cards0 ! 2, cards0 ! 3] @ drop 2 dealer0,
          player = [cards0 ! 0, cards0 ! 1] @ drop 2 player0,
          dealer_count = 2, player_count = 2,
          dealer_score = add_score (add_score 0 (cards0 ! 2)) (cards0 ! 3),
          player_score = 21, players_turn = 1\<rparr>"
    unfolding start_eq [OF len] by (simp add: Let_def)
qed

text \<open>
  Ace and king for the player, two nines for the dealer: the player's blackjack.
\<close>

theorem player_blackjack_at_start_witness:
  "4 \<le> length [mk_card ''A'' 11, mk_card ''K'' 10, mk_card ''9'' 9, mk_card ''9'' 9]
   \<and> 2 \<le> length [mk_card [] 0, mk_card [] 0] \<and> 2 \<le> length [mk_card [] 0, mk_card [] 0]
   \<and> add_score (add_score 0 ([mk_card ''A'' 11, mk_card ''K'' 10, mk_card ''9'' 9, mk_card ''9'' 9] ! 0))
        ([mk_card ''A'' 11, mk_card ''K'' 10, mk_card ''9'' 9, mk_card ''9'' 9] ! 1) = 21
   \<and> start [mk_card ''A'' 11, mk_card ''K'' 10, mk_card ''9'' 9, mk_card ''9'' 9]
        [mk_card [] 0, mk_card [] 0] [mk_card [] 0, mk_card [] 0]
      = Stop [''BLACKJACK! '', ''YOU WIN!'']
          \<lparr>cards = [mk_card ''A'' 11, mk_card ''K'' 10, mk_card ''9'' 9, mk_card ''9'' 9],
           card_count = 4,
           dealer = [mk_card ''9'' 9, mk_card ''9'' 9],
           player = [mk_card ''A'' 11, mk_card ''K'' 10],
           dealer_count = 2, player_count = 2, dealer_score = 18, player_score = 21,
           players_turn = 1\<rparr>"
  using player_blackjack_at_start
    [of "[mk_card ''A'' 11, mk_card ''K'' 10, mk_card ''9'' 9, mk_card ''9'' 9]"
        "[mk_card [] 0, mk_card [] 0]" "[mk_card [] 0, mk_card [] 0]"]
  by (simp add: add_score_def mk_card_def)

text \<open>
  C8. In the dealer's turn, a dealer score of 21 with exactly two cards ends the
  game at once with the dealer's blackjack (\<open>BLACKJACK! YOU LOOSE!\<close>), whatever the
  player's score, and with the variables untouched, so no card is drawn. This
  verdict comes from nowhere else: whenever it is given, the dealer has 21 with a
  count of exactly two cards.
\<close>

theorem dealer_blackjack:
  "players_turn g = 0 \<longrightarrow>
     (dealer_score g = 21 \<and> dealer_count g = 2 \<longrightarrow>
        step g option = Stop [''BLACKJACK! YOU LOOSE!''] g)
     \<and> (step g option = Stop [''BLACKJACK! YOU LOOSE!''] g' \<longrightarrow>
        dealer_score g = 21 \<and> dealer_count g = 2)"
proof
  assume t: "players_turn g = 0"
  then have eq: "step g option = dealers_turn g" by (simp add: step_def)
  have 1: "dealer_score g = 21 \<and> dealer_count g = 2 \<longrightarrow>
        dealers_turn g = Stop [''BLACKJACK! YOU LOOSE!''] g"
    by (simp add: dealers_turn_def)
  have 2: "dealers_turn g = Stop [''BLACKJACK! YOU LOOSE!''] g' \<longrightarrow>
        dealer_score g = 21 \<and> dealer_count g = 2"
    by (cases "dealer_draws g") (auto simp: dealers_turn_def split: if_splits)
  from 1 2 show "(dealer_score g = 21 \<and> dealer_count g = 2 \<longrightarrow>
        step g option = Stop [''BLACKJACK! YOU LOOSE!''] g)
     \<and> (step g option = Stop [''BLACKJACK! YOU LOOSE!''] g' \<longrightarrow>
        dealer_score g = 21 \<and> dealer_count g = 2)"
    unfolding eq by blast
qed

text \<open>
  The dealer's two-card 21 against a player's 21 of three cards.
\<close>

theorem dealer_blackjack_witness:
  "players_turn ex_naturals = 0 \<and> dealer_score ex_naturals = 21 \<and> dealer_count ex_naturals = 2
   \<and> player_score ex_naturals = 21 \<and> player_count ex_naturals = 3
   \<and> step ex_naturals [] = Stop [''BLACKJACK! YOU LOOSE!''] ex_naturals"
proof -
  have h: "players_turn ex_naturals = 0 \<and> dealer_score ex_naturals = 21
      \<and> dealer_count ex_naturals = 2 \<and> player_score ex_naturals = 21
      \<and> player_count ex_naturals = 3"
    by (simp add: ex_naturals_def)
  from dealer_blackjack [of ex_naturals "[]" ex_naturals] h show ?thesis by blast
qed



lemma game_inv_dealer_draws:
  assumes "game_inv g"
  shows "\<exists>g'. dealer_draws g = Inr g' \<and> player_score g' = player_score g
        \<and> player_score g \<le> dealer_score g'
        \<and> card_count g \<le> card_count g'
        \<and> card_count g' - card_count g \<le> max 0 (player_score g - dealer_score g)"
proof (rule dealer_draws_terminates)
  have ok: "deck_ok (cards g)" using assms by (simp add: game_inv_def)
  then show "\<forall>c\<in>set (cards g). 0 < card_points c"
    by (auto simp: deck_ok_def list_all_iff)
  have l: "length (cards g) = 52" "length (dealer g) = 52"
    using assms by (simp_all add: game_inv_def deck_ok_def)
  have a: "card_count g = player_count g + dealer_count g" "0 \<le> player_count g"
    "player_count g \<le> player_score g" "0 \<le> dealer_count g" "dealer_count g \<le> dealer_score g"
    "player_score g \<le> 21" "dealer_count g \<le> 21"
    using assms by (simp_all add: game_inv_def)
  show "0 \<le> card_count g" "0 \<le> dealer_count g" using a by linarith+
  show "player_score g - dealer_score g \<le> int (length (cards g)) - card_count g"
    unfolding l using a by linarith
  show "player_score g - dealer_score g \<le> int (length (dealer g)) - dealer_count g"
    unfolding l using a by linarith
qed

text \<open>
  C10. A card whose points are in the table of main raises the score of the hand it
  is dealt to by at least 1. Hence the dealer's loop ends without leaving the
  arrays when the deck and the dealer's hand have room for as many cards as the
  player's score exceeds the dealer's: it returns with the player's score unchanged
  and not above the dealer's, after at most that many cards. In every state that
  main reaches there is that much room, so there the loop always ends.
\<close>

theorem dealt_card_raises_score:
  "(list_all (\<lambda>c. card_points c \<in> set points) deck
      \<and> 0 \<le> cursor \<and> cursor < int (length deck) \<and> 0 \<le> held \<and> held < int (length hand) \<longrightarrow>
        (\<exists>hand' score'.
            giveCards deck hand cursor held score 1 = Inr (hand', cursor + 1, held + 1, score')
            \<and> score + 1 \<le> score'))
   \<and> (list_all (\<lambda>c. card_points c \<in> set points) (cards g)
      \<and> 0 \<le> card_count g \<and> 0 \<le> dealer_count g
      \<and> player_score g - dealer_score g \<le> int (length (cards g)) - card_count g
      \<and> player_score g - dealer_score g \<le> int (length (dealer g)) - dealer_count g \<longrightarrow>
        (\<exists>g'. dealer_draws g = Inr g' \<and> player_score g' = player_score g
            \<and> player_score g \<le> dealer_score g'
            \<and> card_count g \<le> card_count g'
            \<and> card_count g' - card_count g \<le> max 0 (player_score g - dealer_score g)))
   \<and> (length player0 = 52 \<and> length dealer0 = 52
      \<and> main_game srand rand card_images seed gen player0 dealer0 = Next g0
      \<and> run g0 options = Next g1 \<longrightarrow>
        (\<exists>g'. dealer_draws g1 = Inr g' \<and> player_score g' = player_score g1
            \<and> player_score g1 \<le> dealer_score g'
            \<and> card_count g1 \<le> card_count g'
            \<and> card_count g' - card_count g1 \<le> max 0 (player_score g1 - dealer_score g1)))"
proof (intro conjI impI)
  assume h: "list_all (\<lambda>c. card_points c \<in> set points) deck
      \<and> 0 \<le> cursor \<and> cursor < int (length deck) \<and> 0 \<le> held \<and> held < int (length hand)"
  then have b: "0 \<le> cursor" "cursor < int (length deck)" "0 \<le> held" "held < int (length hand)"
    by simp_all
  then have "nat cursor < length deck" by linarith
  then have "deck ! nat cursor \<in> set deck" by (rule nth_mem)
  with h have "0 < card_points (deck ! nat cursor)"
    using points_positive by (auto simp: list_all_iff)
  then have "score + 1 \<le> add_score score (deck ! nat cursor)" by (rule add_score_pos)
  with giveCards_one_ok [OF b, of score]
  show "\<exists>hand' score'.
            giveCards deck hand cursor held score 1 = Inr (hand', cursor + 1, held + 1, score')
            \<and> score + 1 \<le> score'"
    by blast
next
  assume h: "list_all (\<lambda>c. card_points c \<in> set points) (cards g)
      \<and> 0 \<le> card_count g \<and> 0 \<le> dealer_count g
      \<and> player_score g - dealer_score g \<le> int (length (cards g)) - card_count g
      \<and> player_score g - dealer_score g \<le> int (length (dealer g)) - dealer_count g"
  then have "\<forall>c\<in>set (cards g). 0 < card_points c"
    using points_positive by (auto simp: list_all_iff)
  with h show "\<exists>g'. dealer_draws g = Inr g' \<and> player_score g' = player_score g
            \<and> player_score g \<le> dealer_score g'
            \<and> card_count g \<le> card_count g'
            \<and> card_count g' - card_count g \<le> max 0 (player_score g - dealer_score g)"
    by (intro dealer_draws_terminates) simp_all
next
  assume h: "length player0 = 52 \<and> length dealer0 = 52
      \<and> main_game srand rand card_images seed gen player0 dealer0 = Next g0
      \<and> run g0 options = Next g1"
  then have "game_inv g0"
    using main_game_inv [of player0 dealer0 srand rand card_images seed gen g0] by simp
  with h have "game_inv g1" using run_inv [of g0 options g1] by simp
  then show "\<exists>g'. dealer_draws g1 = Inr g' \<and> player_score g' = player_score g1
            \<and> player_score g1 \<le> dealer_score g'
            \<and> card_count g1 \<le> card_count g'
            \<and> card_count g' - card_count g1 \<le> max 0 (player_score g1 - dealer_score g1)"
    by (rule game_inv_dealer_draws)
qed

text \<open>
  The deck of \<open>ex_main\<close>, and its game after the player has stood.
\<close>

theorem dealt_card_raises_score_witness:
  "list_all (\<lambda>c. card_points c \<in> set points) ex_deck
   \<and> 0 \<le> (5::int) \<and> 5 < int (length ex_deck) \<and> 0 \<le> (0::int) \<and> 0 < int (length ex_blank)
   \<and> (\<exists>hand' score'.
         giveCards ex_deck ex_blank 5 0 20 1 = Inr (hand', 5 + 1, 0 + 1, score')
         \<and> 20 + 1 \<le> score')
   \<and> list_all (\<lambda>c. card_points c \<in> set points) (cards ex_stood)
   \<and> 0 \<le> card_count ex_stood \<and> 0 \<le> dealer_count ex_stood
   \<and> player_score ex_stood - dealer_score ex_stood
        \<le> int (length (cards ex_stood)) - card_count ex_stood
   \<and> player_score ex_stood - dealer_score ex_stood
        \<le> int (length (dealer ex_stood)) - dealer_count ex_stood
   \<and> length ex_blank = 52
   \<and> main_game (\<lambda>seed. ex_numbers) replay_rand ex_images 0 [] ex_blank ex_blank = Next ex_dealt
   \<and> run ex_dealt [''s''] = Next ex_stood
   \<and> (\<exists>g'. dealer_draws ex_stood = Inr g' \<and> player_score g' = player_score ex_stood
          \<and> player_score ex_stood \<le> dealer_score g'
          \<and> card_count ex_stood \<le> card_count g'
          \<and> card_count g' - card_count ex_stood
               \<le> max 0 (player_score ex_stood - dealer_score ex_stood))"
proof -
  have h1: "list_all (\<lambda>c. card_points c \<in> set points) ex_deck
   \<and> 0 \<le> (5::int) \<and> 5 < int (length ex_deck) \<and> 0 \<le> (0::int) \<and> 0 < int (length ex_blank)"
    by code_simp
  have h2: "list_all (\<lambda>c. card_points c \<in> set points) (cards ex_stood)
   \<and> 0 \<le> card_count ex_stood \<and> 0 \<le> dealer_count ex_stood
   \<and> player_score ex_stood - dealer_score ex_stood
        \<le> int (length (cards ex_stood)) - card_count ex_stood
   \<and> player_score ex_stood - dealer_score ex_stood
        \<le> int (length (dealer ex_stood)) - dealer_count ex_stood"
    by code_simp
  have h3: "length ex_blank = 52
   \<and> main_game (\<lambda>seed. ex_numbers) replay_rand ex_images 0 [] ex_blank ex_blank = Next ex_dealt
   \<and> run ex_dealt [''s''] = Next ex_stood"
    by code_simp
  from dealt_card_raises_score
    [of ex_deck 5 0 ex_blank 20 ex_stood ex_blank ex_blank "\<lambda>seed. ex_numbers" replay_rand
        ex_images 0 "[]" ex_dealt "[''s'']" ex_stood] h1 h2 h3
  show ?thesis by blast
qed

end
